theory Spec2Isabelle
  imports Main
begin

section \<open>Python integers and errors\<close>

text \<open>
  The module is Python 2: \<^verbatim>\<open>/\<close> on two integers is floor division, and both
  \<^verbatim>\<open>/\<close> and \<^verbatim>\<open>%\<close> raise \<^verbatim>\<open>ZeroDivisionError\<close> on a zero divisor. Python's
  floor division and its remainder (sign of the divisor) coincide with \<open>div\<close> and
  \<open>mod\<close> on \<open>int\<close> for every non-zero divisor. The only other exception the module
  can raise is the \<^verbatim>\<open>AssertionError\<close> of the \<^verbatim>\<open>assert\<close> opening \<^verbatim>\<open>multiply\<close>.
\<close>

datatype error = AssertionError | ZeroDivisionError

definition floor_div :: "int \<Rightarrow> int \<Rightarrow> error + int" where
  "floor_div a b = (if b = 0 then Inl ZeroDivisionError else Inr (a div b))"

definition floor_mod :: "int \<Rightarrow> int \<Rightarrow> error + int" where
  "floor_mod a b = (if b = 0 then Inl ZeroDivisionError else Inr (a mod b))"

text \<open>
  All three operations start by padding both operands on the left with zeros to their
  common length: \<^verbatim>\<open>[0 for i in range(len(xs), length)] + xs\<close>.
\<close>

definition pad :: "nat \<Rightarrow> int list \<Rightarrow> int list" where
  "pad len xs = replicate (len - length xs) 0 @ xs"

section \<open>add\<close>

text \<open>
  The column loop \<^verbatim>\<open>for i in range(1, len(lhs) + 1)\<close>. The bound \<open>n\<close> is the value of
  \<^verbatim>\<open>len(lhs)\<close> when the loop starts; \<^verbatim>\<open>xs[-i]\<close> is \<open>xs ! (length xs - i)\<close> for
  \<open>1 \<le> i \<le> length xs\<close>, the only indices the loop reads (both operands have length
  \<open>n\<close> after padding). The state is the carry and the digits emitted so far, least
  significant first.
\<close>

function add_loop :: "int list \<Rightarrow> int list \<Rightarrow> int \<Rightarrow> nat \<Rightarrow> nat \<Rightarrow> int \<Rightarrow> int list
    \<Rightarrow> error + (int \<times> int list)" where
  "add_loop lhs rhs base n i carry result =
     (if i < n + 1 then
        (let column = lhs ! (length lhs - i) + rhs ! (length rhs - i) + carry in
         case floor_mod column base of
           Inl e \<Rightarrow> Inl e
         | Inr digit \<Rightarrow>
            (case floor_div column base of
               Inl e \<Rightarrow> Inl e
             | Inr carry' \<Rightarrow> add_loop lhs rhs base n (i + 1) carry' (result @ [digit])))
      else Inr (carry, result))"
  by pat_completeness auto
termination
  by (relation "measure (\<lambda>(lhs, rhs, base, n, i, carry, result). n + 1 - i)") auto

definition add :: "int list \<Rightarrow> int list \<Rightarrow> int \<Rightarrow> error + int list" where
  "add lhs rhs base =
     (let len = max (length lhs) (length rhs);
          lhs = pad len lhs;
          rhs = pad len rhs
      in case add_loop lhs rhs base (length lhs) 1 0 [] of
           Inl e \<Rightarrow> Inl e
         | Inr (carry, result) \<Rightarrow>
             Inr (rev (if carry \<noteq> 0 then result @ [carry] else result)))"

section \<open>subtract\<close>

text \<open>
  The borrow walk \<^verbatim>\<open>while j <= length\<close> on the padded copy of \<^verbatim>\<open>lhs\<close>, which it
  updates in place: the buffer is passed in and returned. When \<open>j\<close> passes \<open>len\<close>
  the loop ends and the buffer is returned as it is; nothing is raised. The walk ends
  early (\<^verbatim>\<open>break\<close>) at the first digit that does not wrap to \<open>base - 1\<close>.

  In the column loop the bound of \<^verbatim>\<open>range(1, len(lhs) + 1)\<close> and the variable
  \<^verbatim>\<open>length\<close> of the walk are the same number, the common padded length, passed as
  \<open>n\<close>. A column reads \<^verbatim>\<open>lhs[-i]\<close> from the buffer as the earlier walks left it.
\<close>

function borrow :: "int list \<Rightarrow> int \<Rightarrow> nat \<Rightarrow> nat \<Rightarrow> error + int list" where
  "borrow lhs base len j =
     (if j \<le> len then
        (case floor_mod (lhs ! (length lhs - j) + (base - 1)) base of
           Inl e \<Rightarrow> Inl e
         | Inr d \<Rightarrow>
            (let lhs = lhs[length lhs - j := d] in
             if lhs ! (length lhs - j) \<noteq> base - 1 then Inr lhs
             else borrow lhs base len (j + 1)))
      else Inr lhs)"
  by pat_completeness auto
termination
  by (relation "measure (\<lambda>(lhs, base, len, j). len + 1 - j)") auto

function subtract_loop :: "int list \<Rightarrow> int list \<Rightarrow> int \<Rightarrow> nat \<Rightarrow> nat \<Rightarrow> int list
    \<Rightarrow> error + int list" where
  "subtract_loop lhs rhs base n i result =
     (if i < n + 1 then
        (let difference = lhs ! (length lhs - i) - rhs ! (length rhs - i) in
         if difference \<ge> 0 then
           subtract_loop lhs rhs base n (i + 1) (result @ [difference])
         else
           (case borrow lhs base n (i + 1) of
              Inl e \<Rightarrow> Inl e
            | Inr lhs' \<Rightarrow> subtract_loop lhs' rhs base n (i + 1) (result @ [difference + base])))
      else Inr result)"
  by pat_completeness auto
termination
  by (relation "measure (\<lambda>(lhs, rhs, base, n, i, result). n + 1 - i)") auto

definition subtract :: "int list \<Rightarrow> int list \<Rightarrow> int \<Rightarrow> error + int list" where
  "subtract lhs rhs base =
     (let len = max (length lhs) (length rhs);
          lhs = pad len lhs;
          rhs = pad len rhs
      in case subtract_loop lhs rhs base (length lhs) 1 [] of
           Inl e \<Rightarrow> Inl e
         | Inr result \<Rightarrow> Inr (rev result))"

section \<open>multiply\<close>

text \<open>
  The recursion of \<^verbatim>\<open>multiply\<close> is not bounded on every input: with \<open>base = 1\<close>,
  \<^verbatim>\<open>multiply([10,0], [10,0], 1)\<close> computes the pre-sums \<^verbatim>\<open>add([10], [0], 1) = [10,0]\<close>
  and calls itself on them. So the function is defined in the option domain:
  \<open>None\<close> is a call that never returns, \<open>Some (Inl e)\<close> one that raises \<open>e\<close>, and
  \<open>Some (Inr ds)\<close> one that returns \<open>ds\<close>. Statements are evaluated in the order of
  the source: \<open>p0\<close>, the two pre-sums, \<open>p1\<close>, \<open>p2\<close>, then the recombination.

  \<open>recombine\<close> is the tail of the function, from \<^verbatim>\<open>z0 = p0\<close> to the final
  \<^verbatim>\<open>return add(add(z0prod, z1prod, base), z2prod, base)\<close>; the inner \<^verbatim>\<open>add(p0, p2, base)\<close>
  is evaluated before the \<^verbatim>\<open>subtract\<close> that takes it as argument.
\<close>

definition recombine :: "int list \<Rightarrow> int list \<Rightarrow> int list \<Rightarrow> nat \<Rightarrow> int \<Rightarrow> error + int list" where
  "recombine p0 p1 p2 m1 base =
     (case add p0 p2 base of
        Inl e \<Rightarrow> Inl e
      | Inr s \<Rightarrow>
         (case subtract p1 s base of
            Inl e \<Rightarrow> Inl e
          | Inr z1 \<Rightarrow>
             (let z0 = p0; z2 = p2;
                  z0prod = z0 @ replicate (2 * m1) 0;
                  z1prod = z1 @ replicate m1 0;
                  z2prod = z2
              in case add z0prod z1prod base of
                   Inl e \<Rightarrow> Inl e
                 | Inr t \<Rightarrow> add t z2prod base)))"

partial_function (option) multiply :: "int list \<Rightarrow> int list \<Rightarrow> int \<Rightarrow> (error + int list) option" where
  "multiply lhs rhs base =
     (if \<not> (length lhs > 0 \<and> length rhs > 0) then Some (Inl AssertionError)
      else
        let len = max (length lhs) (length rhs);
            lhs = pad len lhs;
            rhs = pad len rhs
        in
          if len = 1 then
            (let result = lhs ! 0 * rhs ! 0 in
             if result < base then Some (Inr [result])
             else Some (case floor_div result base of
                          Inl e \<Rightarrow> Inl e
                        | Inr q \<Rightarrow> (case floor_mod result base of
                                      Inl e \<Rightarrow> Inl e
                                    | Inr r \<Rightarrow> Inr [q, r])))
          else
            let m0 = (len + 1) div 2;
                m1 = len div 2;
                x0 = take m0 lhs;
                x1 = drop m0 lhs;
                y0 = take m0 rhs;
                y1 = drop m0 rhs
            in
              Option.bind (multiply x0 y0 base) (\<lambda>r0.
                case r0 of
                  Inl e \<Rightarrow> Some (Inl e)
                | Inr p0 \<Rightarrow>
                   (case add x0 x1 base of
                      Inl e \<Rightarrow> Some (Inl e)
                    | Inr sx \<Rightarrow>
                       (case add y0 y1 base of
                          Inl e \<Rightarrow> Some (Inl e)
                        | Inr sy \<Rightarrow>
                           Option.bind (multiply sx sy base) (\<lambda>r1.
                             case r1 of
                               Inl e \<Rightarrow> Some (Inl e)
                             | Inr p1 \<Rightarrow>
                                Option.bind (multiply x1 y1 base) (\<lambda>r2.
                                  case r2 of
                                    Inl e \<Rightarrow> Some (Inl e)
                                  | Inr p2 \<Rightarrow> Some (recombine p0 p1 p2 m1 base)))))))"

declare multiply.simps [code]

section \<open>The integer a digit vector represents\<close>

text \<open>
  A digit vector is most significant digit first; \<open>val base ds\<close> is the integer it
  represents (Horner's rule), and \<open>digits_ok base ds\<close> says that every digit lies in
  \<open>[0, base)\<close>.
\<close>

definition val :: "int \<Rightarrow> int list \<Rightarrow> int" where
  "val base ds = foldl (\<lambda>acc d. acc * base + d) 0 ds"

definition digits_ok :: "int \<Rightarrow> int list \<Rightarrow> bool" where
  "digits_ok base ds = list_all (\<lambda>d. 0 \<le> d \<and> d < base) ds"

text \<open>
  A useless leading zero: the first digit is zero and more digits follow. The vector
  \<open>[0]\<close> has none, it is the minimal vector of the integer zero.
\<close>

definition leading_zero :: "int list \<Rightarrow> bool" where
  "leading_zero ds = (case ds of d # _ # _ \<Rightarrow> d = 0 | _ \<Rightarrow> False)"

section \<open>Values, ranges and padding\<close>

declare add_loop.simps [simp del] borrow.simps [simp del] subtract_loop.simps [simp del]

lemma val_Nil [simp]: "val b [] = 0"
  by (simp add: val_def)

lemma val_snoc [simp]: "val b (ds @ [d]) = val b ds * b + d"
  by (simp add: val_def)

lemma val_append: "val b (xs @ ys) = val b xs * b ^ length ys + val b ys"
proof (induction ys rule: rev_induct)
  case Nil
  show ?case by simp
next
  case (snoc y ys)
  have "val b (xs @ ys @ [y]) = val b ((xs @ ys) @ [y])" by simp
  also have "\<dots> = val b (xs @ ys) * b + y" by (rule val_snoc)
  finally show ?case using snoc by (simp add: algebra_simps)
qed

lemma val_Cons: "val b (d # ds) = d * b ^ length ds + val b ds"
  using val_append [of b "[d]" ds] by (simp add: val_def)

lemma val_replicate_0 [simp]: "val b (replicate k 0) = 0"
  by (induction k) (simp_all add: val_Cons)

lemma val_pad [simp]: "val b (pad n ds) = val b ds"
  by (simp add: pad_def val_append)

lemma val_shift [simp]: "val b (ds @ replicate k 0) = val b ds * b ^ k"
  by (simp add: val_append)

lemma digits_ok_Nil [simp]: "digits_ok b []"
  by (simp add: digits_ok_def)

lemma digits_ok_Cons [simp]: "digits_ok b (d # ds) \<longleftrightarrow> 0 \<le> d \<and> d < b \<and> digits_ok b ds"
  by (auto simp: digits_ok_def)

lemma digits_ok_append [simp]: "digits_ok b (xs @ ys) \<longleftrightarrow> digits_ok b xs \<and> digits_ok b ys"
  by (simp add: digits_ok_def)

lemma digits_ok_rev [simp]: "digits_ok b (rev ds) = digits_ok b ds"
  by (simp add: digits_ok_def list_all_iff)

lemma digits_ok_replicate_0 [simp]: "0 < b \<Longrightarrow> digits_ok b (replicate k 0)"
  by (simp add: digits_ok_def list_all_iff)

lemma digits_ok_pad [simp]: "0 < b \<Longrightarrow> digits_ok b (pad n ds) = digits_ok b ds"
  by (simp add: pad_def)

lemma digits_ok_nth: "digits_ok b ds \<Longrightarrow> k < length ds \<Longrightarrow> 0 \<le> ds ! k \<and> ds ! k < b"
  by (simp add: digits_ok_def list_all_length)

lemma digits_ok_take: "digits_ok b ds \<Longrightarrow> digits_ok b (take k ds)"
  by (auto simp: digits_ok_def list_all_iff dest: in_set_takeD)

lemma digits_ok_drop: "digits_ok b ds \<Longrightarrow> digits_ok b (drop k ds)"
  by (auto simp: digits_ok_def list_all_iff dest: in_set_dropD)

lemma length_pad [simp]: "length (pad n ds) = max n (length ds)"
  by (simp add: pad_def)

lemma val_nonneg: "0 \<le> b \<Longrightarrow> digits_ok b ds \<Longrightarrow> 0 \<le> val b ds"
  by (induction ds rule: rev_induct) simp_all

lemma val_less: "digits_ok b ds \<Longrightarrow> val b ds < b ^ length ds"
proof (induction ds rule: rev_induct)
  case Nil
  show ?case by simp
next
  case (snoc d ds)
  then have d: "0 \<le> d" "d < b" and v: "val b ds + 1 \<le> b ^ length ds" by simp_all
  from d have "0 < b" by simp
  with v have "(val b ds + 1) * b \<le> b ^ length ds * b"
    by (intro mult_right_mono) simp_all
  with d show ?case by (simp add: algebra_simps)
qed

lemma val_take_Suc: "k < length ds \<Longrightarrow> val b (take (Suc k) ds) = val b (take k ds) * b + ds ! k"
  by (simp add: take_Suc_conv_app_nth)

lemma val_take_drop: "val b ds = val b (take k ds) * b ^ length (drop k ds) + val b (drop k ds)"
  using val_append [of b "take k ds" "drop k ds"] by simp

lemma add_loop_inv:
  "base \<noteq> 0 \<Longrightarrow> length lhs = n \<Longrightarrow> length rhs = n \<Longrightarrow>
   1 \<le> i \<Longrightarrow> i \<le> n + 1 \<Longrightarrow> length result = i - 1 \<Longrightarrow>
    \<exists>c res. add_loop lhs rhs base n i carry result = Inr (c, res) \<and> length res = n \<and>
      c * base ^ n + val base (rev res) =
        val base (rev result) +
          base ^ (i - 1) * (carry + val base (take (n + 1 - i) lhs) + val base (take (n + 1 - i) rhs)) \<and>
      (0 < base \<longrightarrow> digits_ok base result \<longrightarrow> digits_ok base res)"
proof (induction lhs rhs base n i carry result rule: add_loop.induct)
  case (1 lhs rhs base n i carry result)
  note b0 = \<open>base \<noteq> 0\<close> and ll = \<open>length lhs = n\<close> and lr = \<open>length rhs = n\<close>
    and i1 = \<open>1 \<le> i\<close> and lres = \<open>length result = i - 1\<close>
  show ?case
  proof (cases "i < n + 1")
    case False
    with \<open>i \<le> n + 1\<close> have "i = n + 1" by simp
    with lres show ?thesis
      by (subst add_loop.simps) simp
  next
    case True
    define column where "column = lhs ! (length lhs - i) + rhs ! (length rhs - i) + carry"
    have m: "floor_mod column base = Inr (column mod base)"
      and f: "floor_div column base = Inr (column div base)"
      using b0 by (simp_all add: floor_mod_def floor_div_def)
    have step: "add_loop lhs rhs base n i carry result =
        add_loop lhs rhs base n (i + 1) (column div base) (result @ [column mod base])"
      using True m f
      by (subst add_loop.simps) (simp add: column_def [symmetric])
    have "\<exists>c res. add_loop lhs rhs base n (i + 1) (column div base) (result @ [column mod base]) = Inr (c, res) \<and>
      length res = n \<and>
      c * base ^ n + val base (rev res) =
        val base (rev (result @ [column mod base])) +
          base ^ (i + 1 - 1) * (column div base + val base (take (n + 1 - (i + 1)) lhs) + val base (take (n + 1 - (i + 1)) rhs)) \<and>
      (0 < base \<longrightarrow> digits_ok base (result @ [column mod base]) \<longrightarrow> digits_ok base res)"
      using True b0 ll lr i1 lres
      by (intro "1.IH" [OF True column_def m f]) simp_all
    then obtain c res where
      run: "add_loop lhs rhs base n (i + 1) (column div base) (result @ [column mod base]) = Inr (c, res)"
      and len: "length res = n"
      and v: "c * base ^ n + val base (rev res) =
        val base (rev (result @ [column mod base])) +
          base ^ i * (column div base + val base (take (n - i) lhs) + val base (take (n - i) rhs))"
      and d: "0 < base \<longrightarrow> digits_ok base (result @ [column mod base]) \<longrightarrow> digits_ok base res"
      by auto
    have idx: "n + 1 - i = Suc (n - i)" "n - i < n" using True i1 by simp_all
    have tl: "val base (take (n + 1 - i) lhs) = val base (take (n - i) lhs) * base + lhs ! (n - i)"
      using idx ll by (simp add: val_take_Suc)
    have tr: "val base (take (n + 1 - i) rhs) = val base (take (n - i) rhs) * base + rhs ! (n - i)"
      using idx lr by (simp add: val_take_Suc)
    define q r where "q = column div base" and "r = column mod base"
    have col: "column = r + base * q" by (simp add: q_def r_def)
    have pw: "base ^ i = base ^ (i - 1) * base" using i1 by (cases i) simp_all
    have "val base (rev (result @ [r])) = r * base ^ (i - 1) + val base (rev result)"
      using lres by (simp add: val_Cons)
    with v have "c * base ^ n + val base (rev res) =
        val base (rev result) + base ^ (i - 1) * ((r + base * q)
          + val base (take (n - i) lhs) * base + val base (take (n - i) rhs) * base)"
      unfolding q_def [symmetric] r_def [symmetric] by (simp add: pw algebra_simps)
    also have "\<dots> = val base (rev result) +
          base ^ (i - 1) * (carry + val base (take (n + 1 - i) lhs) + val base (take (n + 1 - i) rhs))"
      unfolding col [symmetric] tl tr using ll lr by (simp add: column_def algebra_simps)
    finally have v': "c * base ^ n + val base (rev res) =
        val base (rev result) +
          base ^ (i - 1) * (carry + val base (take (n + 1 - i) lhs) + val base (take (n + 1 - i) rhs))" .
    have d': "0 < base \<longrightarrow> digits_ok base result \<longrightarrow> digits_ok base res"
      using d by simp
    show ?thesis using step run len v' d' by simp
  qed
qed


lemma add_shape:
  assumes b: "2 \<le> base" and l: "digits_ok base lhs" and r: "digits_ok base rhs"
  shows "\<exists>c ds. add lhs rhs base = Inr ((if c \<noteq> 0 then [c] else []) @ ds) \<and>
     length ds = max (length lhs) (length rhs) \<and> digits_ok base ds \<and> (c = 0 \<or> c = 1) \<and>
     c * base ^ max (length lhs) (length rhs) + val base ds = val base lhs + val base rhs"
proof -
  define n where "n = max (length lhs) (length rhs)"
  define L R where "L = pad n lhs" and "R = pad n rhs"
  have len: "length L = n" "length R = n" by (simp_all add: L_def R_def n_def)
  have b0: "base \<noteq> 0" "0 < base" using b by simp_all
  from add_loop_inv [OF b0(1) len, of 1 "[]" 0]
  obtain c res where run: "add_loop L R base n 1 0 [] = Inr (c, res)"
    and lres: "length res = n"
    and v: "c * base ^ n + val base (rev res) = val base L + val base R"
    and d: "digits_ok base res"
    using len b0 by auto
  have vL: "val base L = val base lhs" and vR: "val base R = val base rhs"
    by (simp_all add: L_def R_def)
  have dL: "digits_ok base L" and dR: "digits_ok base R"
    using l r b0 by (simp_all add: L_def R_def)
  have pos: "0 < base ^ n" using b0 by simp
  have lo: "0 \<le> val base (rev res)" using d b0 by (intro val_nonneg) simp_all
  have hi: "val base (rev res) < base ^ n" using val_less [of base "rev res"] d lres by simp
  have sl: "0 \<le> val base L + val base R"
    using val_nonneg [of base L] val_nonneg [of base R] dL dR b0 by simp
  have sh: "val base L + val base R < 2 * base ^ n"
    using val_less [OF dL] val_less [OF dR] len by simp
  have "c * base ^ n < 2 * base ^ n" using v lo sh by linarith
  then have c2: "c < 2" using pos by simp
  have "- 1 * base ^ n < c * base ^ n" using v hi sl by linarith
  then have c0: "- 1 < c" using pos by (simp only: mult_less_cancel_right_pos)
  have c01: "c = 0 \<or> c = 1" using c0 c2 by linarith
  have "add lhs rhs base = Inr ((if c \<noteq> 0 then [c] else []) @ rev res)"
    unfolding add_def Let_def n_def [symmetric] L_def [symmetric] R_def [symmetric] len
    using run by simp
  then show ?thesis
    using lres d c01 v vL vR unfolding n_def [symmetric] by (intro exI [of _ c] exI [of _ "rev res"]) simp
qed

lemma dec_mod:
  fixes b x :: int
  assumes "2 \<le> b" "0 \<le> x" "x < b"
  shows "(x + (b - 1)) mod b = (if x = 0 then b - 1 else x - 1)"
proof (cases "x = 0")
  case True
  have "(b - 1) mod b = b - 1" using assms(1) by (intro mod_pos_pos_trivial; linarith)
  with True show ?thesis by simp
next
  case False
  have "(x + (b - 1)) mod b = ((x - 1) + b) mod b" by (simp add: algebra_simps)
  also have "\<dots> = (x - 1) mod b" by (simp only: mod_add_self2)
  also have "\<dots> = x - 1" using assms False by (intro mod_pos_pos_trivial; linarith)
  finally show ?thesis using False by (simp only: if_False)
qed

lemma borrow_inv:
  "2 \<le> base \<Longrightarrow> length lhs = len \<Longrightarrow> digits_ok base lhs \<Longrightarrow> 1 \<le> j \<Longrightarrow> j \<le> len + 1 \<Longrightarrow>
   \<exists>lhs'. borrow lhs base len j = Inr lhs' \<and> length lhs' = len \<and> digits_ok base lhs' \<and>
     drop (len + 1 - j) lhs' = drop (len + 1 - j) lhs \<and>
     base ^ (len + 1 - j) dvd (val base (take (len + 1 - j) lhs') - (val base (take (len + 1 - j) lhs) - 1))"
proof (induction lhs base len j rule: borrow.induct)
  case (1 lhs base len j)
  note b = \<open>2 \<le> base\<close> and ll = \<open>length lhs = len\<close> and dl = \<open>digits_ok base lhs\<close> and j1 = \<open>1 \<le> j\<close>
  show ?case
  proof (cases "j \<le> len")
    case False
    with \<open>j \<le> len + 1\<close> have "j = len + 1" by simp
    then show ?thesis using ll dl by (subst borrow.simps) simp
  next
    case True
    define idx where "idx = len - j"
    have idx: "idx < len" "len + 1 - j = Suc idx" "len + 1 - (j + 1) = idx" "length lhs - j = idx"
      using True j1 ll by (simp_all add: idx_def)
    define x where "x = lhs ! idx"
    have x: "0 \<le> x" "x < base" using digits_ok_nth [OF dl, of idx] idx ll by (simp_all add: x_def)
    define d where "d = (x + (base - 1)) mod base"
    have m: "floor_mod (lhs ! (length lhs - j) + (base - 1)) base = Inr d"
      using b idx by (simp add: floor_mod_def d_def x_def)
    define lhs1 where "lhs1 = lhs[length lhs - j := d]"
    have l1: "length lhs1 = len" "lhs1 ! idx = d" "length lhs1 - j = idx"
      using idx ll by (simp_all add: lhs1_def)
    have at1: "lhs1 ! (length lhs1 - j) = d" using l1 by simp
    have d_rng: "0 \<le> d" "d < base" using b by (simp_all add: d_def)
    have dl1: "digits_ok base lhs1"
      using dl d_rng unfolding lhs1_def digits_ok_def list_all_iff
      by (auto dest!: set_update_subset_insert [THEN subsetD])
    have tk: "take idx lhs1 = take idx lhs" and dr: "drop (Suc idx) lhs1 = drop (Suc idx) lhs"
      using idx by (simp_all add: lhs1_def)
    have vt: "val base (take (Suc idx) lhs) = val base (take idx lhs) * base + x"
      using idx ll by (simp add: val_take_Suc x_def)
    have unf: "borrow lhs base len j =
        (if lhs1 ! (length lhs1 - j) \<noteq> base - 1 then Inr lhs1 else borrow lhs1 base len (j + 1))"
      by (subst borrow.simps) (simp add: True m lhs1_def Let_def)
    show ?thesis
    proof (cases "d \<noteq> base - 1")
      case nowrap: True
      have dx: "d = x - 1" using nowrap dec_mod [OF b x] unfolding d_def by (simp split: if_splits)
      have res: "borrow lhs base len j = Inr lhs1"
        using nowrap unfolding unf at1 by simp
      have "val base (take (Suc idx) lhs1) = val base (take idx lhs) * base + d"
        using idx l1 tk by (simp add: val_take_Suc)
      with vt dx have "val base (take (Suc idx) lhs1) - (val base (take (Suc idx) lhs) - 1) = 0"
        by simp
      then show ?thesis using res l1 dl1 dr idx by simp
    next
      case wrap: False
      then have dw: "d = base - 1" by simp
      have x0: "x = 0" using dw x dec_mod [OF b x] unfolding d_def by (simp split: if_splits)
      have res: "borrow lhs base len j = borrow lhs1 base len (j + 1)"
        using wrap unfolding unf at1 by simp
      have "\<exists>lhs'. borrow lhs1 base len (j + 1) = Inr lhs' \<and> length lhs' = len \<and> digits_ok base lhs' \<and>
         drop (len + 1 - (j + 1)) lhs' = drop (len + 1 - (j + 1)) lhs1 \<and>
         base ^ (len + 1 - (j + 1)) dvd
           (val base (take (len + 1 - (j + 1)) lhs') - (val base (take (len + 1 - (j + 1)) lhs1) - 1))"
        using True b l1 dl1 wrap
        by (intro "1.IH" [OF True m lhs1_def]) simp_all
      then obtain lhs' where run: "borrow lhs1 base len (j + 1) = Inr lhs'"
        and ll': "length lhs' = len" and dl': "digits_ok base lhs'"
        and dr': "drop idx lhs' = drop idx lhs1"
        and dv: "base ^ idx dvd (val base (take idx lhs') - (val base (take idx lhs) - 1))"
        using idx tk by auto
      have "drop idx lhs' ! 0 = drop idx lhs1 ! 0" using dr' by simp
      then have at: "lhs' ! idx = d" using idx ll' l1 by simp
      have "drop (Suc idx) lhs' = drop 1 (drop idx lhs')" by simp
      also have "\<dots> = drop 1 (drop idx lhs1)" using dr' by simp
      finally have dr2: "drop (Suc idx) lhs' = drop (Suc idx) lhs" using dr by simp
      have "val base (take (Suc idx) lhs') = val base (take idx lhs') * base + (base - 1)"
        using idx ll' at dw by (simp add: val_take_Suc)
      with vt x0 have "val base (take (Suc idx) lhs') - (val base (take (Suc idx) lhs) - 1)
          = (val base (take idx lhs') - (val base (take idx lhs) - 1)) * base"
        by (simp add: algebra_simps)
      moreover have "base ^ Suc idx dvd (val base (take idx lhs') - (val base (take idx lhs) - 1)) * base"
        using dv by (simp add: mult.commute [of base])
      ultimately have "base ^ Suc idx dvd
          (val base (take (Suc idx) lhs') - (val base (take (Suc idx) lhs) - 1))" by simp
      then show ?thesis using res run ll' dl' dr2 idx by simp
    qed
  qed
qed

lemma subtract_loop_inv:
  "2 \<le> base \<Longrightarrow> length lhs = n \<Longrightarrow> length rhs = n \<Longrightarrow> digits_ok base lhs \<Longrightarrow>
   digits_ok base rhs \<Longrightarrow> 1 \<le> i \<Longrightarrow> i \<le> n + 1 \<Longrightarrow> length result = i - 1 \<Longrightarrow>
   digits_ok base result \<Longrightarrow>
   \<exists>res. subtract_loop lhs rhs base n i result = Inr res \<and> length res = n \<and> digits_ok base res \<and>
     base ^ n dvd (val base (rev res) - (val base (rev result) +
        base ^ (i - 1) * (val base (take (n + 1 - i) lhs) - val base (take (n + 1 - i) rhs))))"
proof (induction lhs rhs base n i result rule: subtract_loop.induct)
  case (1 lhs rhs base n i result)
  note b = \<open>2 \<le> base\<close> and ll = \<open>length lhs = n\<close> and lr = \<open>length rhs = n\<close>
    and dl = \<open>digits_ok base lhs\<close> and dr = \<open>digits_ok base rhs\<close>
    and i1 = \<open>1 \<le> i\<close> and lres = \<open>length result = i - 1\<close> and dres = \<open>digits_ok base result\<close>
  show ?case
  proof (cases "i < n + 1")
    case False
    with \<open>i \<le> n + 1\<close> have "i = n + 1" by simp
    with lres dres show ?thesis
      by (subst subtract_loop.simps) simp
  next
    case True
    define idx where "idx = n - i"
    have idx: "idx < n" "n + 1 - i = Suc idx" "n + 1 - (i + 1) = idx" "n = i + idx"
      using True i1 by (simp_all add: idx_def)
    define x y where "x = lhs ! idx" and "y = rhs ! idx"
    have x: "0 \<le> x" "x < base" using digits_ok_nth [OF dl, of idx] idx ll by (simp_all add: x_def)
    have y: "0 \<le> y" "y < base" using digits_ok_nth [OF dr, of idx] idx lr by (simp_all add: y_def)
    define difference where "difference = lhs ! (length lhs - i) - rhs ! (length rhs - i)"
    have diff: "difference = x - y" using ll lr by (simp add: difference_def x_def y_def idx_def)
    define A B where "A = val base (take idx lhs)" and "B = val base (take idx rhs)"
    have tl: "val base (take (Suc idx) lhs) = A * base + x"
      using idx ll by (simp add: val_take_Suc x_def A_def)
    have tr: "val base (take (Suc idx) rhs) = B * base + y"
      using idx lr by (simp add: val_take_Suc y_def B_def)
    have pw: "base ^ i = base ^ (i - 1) * base" using i1 by (cases i) simp_all
    have pn: "base ^ n = base ^ i * base ^ idx" using idx(4) by (simp add: power_add)
    define V where "V = val base (rev result)"
    have vsnoc: "val base (rev (result @ [e])) = e * base ^ (i - 1) + V" for e
      using lres by (simp add: val_Cons V_def)
    show ?thesis
    proof (cases "difference \<ge> 0")
      case nonneg: True
      have step: "subtract_loop lhs rhs base n i result =
          subtract_loop lhs rhs base n (i + 1) (result @ [difference])"
        using True nonneg
        by (subst subtract_loop.simps) (simp add: difference_def [symmetric])
      have "\<exists>res. subtract_loop lhs rhs base n (i + 1) (result @ [difference]) = Inr res \<and>
          length res = n \<and> digits_ok base res \<and>
          base ^ n dvd (val base (rev res) - (val base (rev (result @ [difference])) +
            base ^ (i + 1 - 1) * (val base (take (n + 1 - (i + 1)) lhs) - val base (take (n + 1 - (i + 1)) rhs))))"
        using True b ll lr dl dr i1 lres dres nonneg x y diff
        by (intro "1.IH"(1) [OF True difference_def nonneg]) simp_all
      then obtain res where run: "subtract_loop lhs rhs base n (i + 1) (result @ [difference]) = Inr res"
        and len: "length res = n" and dg: "digits_ok base res"
        and dv: "base ^ n dvd (val base (rev res) - (difference * base ^ (i - 1) + V + base ^ i * (A - B)))"
        using idx vsnoc by (auto simp: A_def B_def)
      have "difference * base ^ (i - 1) + V + base ^ i * (A - B) =
          V + base ^ (i - 1) * ((A * base + x) - (B * base + y))"
        by (simp add: pw diff algebra_simps)
      with dv have "base ^ n dvd (val base (rev res) - (V + base ^ (i - 1) *
          (val base (take (Suc idx) lhs) - val base (take (Suc idx) rhs))))"
        by (simp only: tl tr)
      then show ?thesis using step run len dg idx by (simp add: V_def)
    next
      case neg: False
      from borrow_inv [OF b ll dl, of "i + 1"] True idx
      obtain lhs' where bw: "borrow lhs base n (i + 1) = Inr lhs'"
        and ll': "length lhs' = n" and dl': "digits_ok base lhs'"
        and bv: "base ^ idx dvd (val base (take idx lhs') - (A - 1))"
        by (auto simp: A_def)
      define A' where "A' = val base (take idx lhs')"
      have step: "subtract_loop lhs rhs base n i result =
          subtract_loop lhs' rhs base n (i + 1) (result @ [difference + base])"
        using True neg bw
        by (subst subtract_loop.simps) (simp add: difference_def [symmetric])
      have "\<exists>res. subtract_loop lhs' rhs base n (i + 1) (result @ [difference + base]) = Inr res \<and>
          length res = n \<and> digits_ok base res \<and>
          base ^ n dvd (val base (rev res) - (val base (rev (result @ [difference + base])) +
            base ^ (i + 1 - 1) * (val base (take (n + 1 - (i + 1)) lhs') - val base (take (n + 1 - (i + 1)) rhs))))"
        using True b ll' lr dl' dr i1 lres dres neg x y diff
        by (intro "1.IH"(2) [OF True difference_def neg bw]) simp_all
      then obtain res where run: "subtract_loop lhs' rhs base n (i + 1) (result @ [difference + base]) = Inr res"
        and len: "length res = n" and dg: "digits_ok base res"
        and dv: "base ^ n dvd (val base (rev res) - ((difference + base) * base ^ (i - 1) + V + base ^ i * (A' - B)))"
        using idx vsnoc by (auto simp: A'_def B_def)
      have "base ^ n dvd base ^ i * (A' - (A - 1))"
        unfolding pn using bv by (simp add: A'_def)
      with dv have "base ^ n dvd (val base (rev res) - ((difference + base) * base ^ (i - 1) + V + base ^ i * (A' - B)))
           + base ^ i * (A' - (A - 1))"
        by (rule dvd_add)
      moreover have "(val base (rev res) - ((difference + base) * base ^ (i - 1) + V + base ^ i * (A' - B)))
           + base ^ i * (A' - (A - 1)) =
          val base (rev res) - (V + base ^ (i - 1) * ((A * base + x) - (B * base + y)))"
        by (simp add: pw diff algebra_simps)
      ultimately have "base ^ n dvd (val base (rev res) - (V + base ^ (i - 1) *
          (val base (take (Suc idx) lhs) - val base (take (Suc idx) rhs))))"
        by (simp only: tl tr)
      then show ?thesis using step run len dg idx by (simp add: V_def)
    qed
  qed
qed

lemma subtract_shape:
  assumes b: "2 \<le> base" and l: "digits_ok base lhs" and r: "digits_ok base rhs"
  shows "\<exists>ds. subtract lhs rhs base = Inr ds \<and> length ds = max (length lhs) (length rhs) \<and>
     digits_ok base ds \<and>
     val base ds = (val base lhs - val base rhs) mod base ^ max (length lhs) (length rhs)"
proof -
  define n where "n = max (length lhs) (length rhs)"
  define L R where "L = pad n lhs" and "R = pad n rhs"
  have len: "length L = n" "length R = n" by (simp_all add: L_def R_def n_def)
  have b0: "0 < base" using b by simp
  have dL: "digits_ok base L" and dR: "digits_ok base R"
    using l r b0 by (simp_all add: L_def R_def)
  have vL: "val base L = val base lhs" and vR: "val base R = val base rhs"
    by (simp_all add: L_def R_def)
  from subtract_loop_inv [OF b len dL dR, of 1 "[]"]
  obtain res where run: "subtract_loop L R base n 1 [] = Inr res"
    and lres: "length res = n" and d: "digits_ok base res"
    and dv: "base ^ n dvd (val base (rev res) - (val base L - val base R))"
    using len by auto
  have lo: "0 \<le> val base (rev res)" using d b0 by (intro val_nonneg) simp_all
  have hi: "val base (rev res) < base ^ n" using val_less [of base "rev res"] d lres by simp
  have "val base (rev res) mod base ^ n = (val base L - val base R) mod base ^ n"
    using dv by (simp only: mod_eq_dvd_iff)
  moreover have "val base (rev res) mod base ^ n = val base (rev res)"
    using lo hi by (rule mod_pos_pos_trivial)
  ultimately have v: "val base (rev res) = (val base lhs - val base rhs) mod base ^ n"
    by (simp add: vL vR)
  have "subtract lhs rhs base = Inr (rev res)"
    unfolding subtract_def Let_def n_def [symmetric] L_def [symmetric] R_def [symmetric] len
    using run by simp
  then show ?thesis using lres d v unfolding n_def [symmetric] by simp
qed

lemma val_single [simp]: "val b [d] = d"
  by (simp add: val_def)

lemma add_correct:
  assumes b: "2 \<le> base" and l: "digits_ok base lhs" and r: "digits_ok base rhs"
  shows "\<exists>res. add lhs rhs base = Inr res \<and> digits_ok base res \<and>
     val base res = val base lhs + val base rhs \<and>
     max (length lhs) (length rhs) \<le> length res \<and>
     length res \<le> max (length lhs) (length rhs) + 1 \<and>
     (val base lhs + val base rhs < base ^ max (length lhs) (length rhs) \<longrightarrow>
        length res = max (length lhs) (length rhs))"
proof -
  define n where "n = max (length lhs) (length rhs)"
  from add_shape [OF b l r] obtain c ds where
    run: "add lhs rhs base = Inr ((if c \<noteq> 0 then [c] else []) @ ds)"
    and len: "length ds = n" and d: "digits_ok base ds" and c: "c = 0 \<or> c = 1"
    and v: "c * base ^ n + val base ds = val base lhs + val base rhs"
    unfolding n_def by blast
  have lo: "0 \<le> val base ds" using d b by (intro val_nonneg) simp_all
  have pos: "0 < base ^ n" using b by simp
  have small: "c = 0" if "val base lhs + val base rhs < base ^ n"
  proof (rule ccontr)
    assume "c \<noteq> 0"
    with c have "c = 1" by simp
    with v lo that show False by simp
  qed
  have dc: "digits_ok base (if c \<noteq> 0 then [c] else [])" using c b by auto
  have vc: "val base ((if c \<noteq> 0 then [c] else []) @ ds) = c * base ^ n + val base ds"
    using c len by (auto simp: val_append)
  show ?thesis
    unfolding n_def [symmetric] using run d dc vc v len small by (auto simp del: val_shift)
qed

lemma val_hd_pos:
  assumes "0 < b" "digits_ok b (d # ds)" "d \<noteq> 0"
  shows "b ^ length ds \<le> val b (d # ds)"
proof -
  from assms have d: "1 \<le> d" and ds: "digits_ok b ds" by simp_all
  have "0 \<le> val b ds" using ds assms(1) by (intro val_nonneg) simp_all
  moreover have "1 * b ^ length ds \<le> d * b ^ length ds"
    using d assms(1) by (intro mult_right_mono) simp_all
  ultimately show ?thesis by (simp add: val_Cons)
qed

lemma leading_zero_val:
  assumes "0 < b" "digits_ok b ds" "2 \<le> length ds"
  shows "leading_zero ds \<longleftrightarrow> val b ds < b ^ (length ds - 1)"
proof -
  from assms(3) obtain d e es where ds: "ds = d # e # es"
    by (cases ds; cases "tl ds") auto
  show ?thesis
  proof (cases "d = 0")
    case True
    have "val b (e # es) < b ^ length (e # es)" using assms(2) ds by (intro val_less) simp
    with True ds show ?thesis by (simp add: leading_zero_def val_Cons)
  next
    case False
    with val_hd_pos [OF assms(1), of d "e # es"] assms(2) ds
    show ?thesis by (simp add: leading_zero_def)
  qed
qed

lemma add_leading_zero:
  assumes b: "2 \<le> base" and l: "digits_ok base lhs" and r: "digits_ok base rhs"
    and run: "add lhs rhs base = Inr res" and z: "leading_zero res"
  shows "leading_zero (pad (max (length lhs) (length rhs)) lhs) \<and>
         leading_zero (pad (max (length lhs) (length rhs)) rhs)"
proof -
  define n where "n = max (length lhs) (length rhs)"
  define L R where "L = pad n lhs" and "R = pad n rhs"
  have b0: "0 < base" using b by simp
  have lenLR: "length L = n" "length R = n" by (simp_all add: L_def R_def n_def)
  have dL: "digits_ok base L" and dR: "digits_ok base R"
    using l r b0 by (simp_all add: L_def R_def)
  from add_shape [OF b l r] run obtain c ds where
    res: "res = (if c \<noteq> 0 then [c] else []) @ ds"
    and len: "length ds = n" and d: "digits_ok base ds" and c: "c = 0 \<or> c = 1"
    and v: "c * base ^ n + val base ds = val base L + val base R"
    unfolding n_def L_def R_def by auto
  have c0: "c = 0" using z res c by (cases ds) (auto simp: leading_zero_def)
  with res have rd: "res = ds" by simp
  have n2: "2 \<le> n" using z rd len by (cases ds; cases "tl ds") (auto simp: leading_zero_def)
  have "val base ds < base ^ (n - 1)"
    using leading_zero_val [OF b0 d] n2 len z rd by simp
  with v c0 have s: "val base L + val base R < base ^ (n - 1)" by simp
  have "0 \<le> val base L" "0 \<le> val base R"
    using dL dR b0 by (simp_all add: val_nonneg)
  with s have "val base L < base ^ (n - 1)" "val base R < base ^ (n - 1)" by simp_all
  then show ?thesis
    using leading_zero_val [OF b0 dL] leading_zero_val [OF b0 dR] n2 lenLR
    unfolding n_def [symmetric] L_def [symmetric] R_def [symmetric] by simp
qed

section \<open>Correctness of the recursion\<close>

lemma subtract_correct:
  assumes b: "2 \<le> base" and l: "digits_ok base lhs" and r: "digits_ok base rhs"
    and le: "val base rhs \<le> val base lhs"
  shows "\<exists>ds. subtract lhs rhs base = Inr ds \<and> digits_ok base ds \<and>
     length ds = max (length lhs) (length rhs) \<and> val base ds = val base lhs - val base rhs"
proof -
  define n where "n = max (length lhs) (length rhs)"
  from subtract_shape [OF b l r] obtain ds where
    s: "subtract lhs rhs base = Inr ds" and dd: "digits_ok base ds" and len: "length ds = n"
    and vd: "val base ds = (val base lhs - val base rhs) mod base ^ n"
    unfolding n_def by blast
  have "val base lhs < base ^ length lhs" using l by (rule val_less)
  also have "\<dots> \<le> base ^ n" using b by (intro power_increasing) (simp_all add: n_def)
  finally have hi: "val base lhs < base ^ n" .
  have "0 \<le> val base rhs" using b r by (intro val_nonneg) simp_all
  with hi le have "(val base lhs - val base rhs) mod base ^ n = val base lhs - val base rhs"
    by (intro mod_pos_pos_trivial) simp_all
  with s dd len vd show ?thesis unfolding n_def by simp
qed

lemma recombine_correct:
  assumes b: "2 \<le> base" and d0: "digits_ok base p0" and d1: "digits_ok base p1"
    and d2: "digits_ok base p2" and le: "val base p0 + val base p2 \<le> val base p1"
  shows "\<exists>res. recombine p0 p1 p2 m1 base = Inr res \<and> digits_ok base res \<and>
     length p2 \<le> length res \<and>
     val base res = val base p0 * base ^ (2 * m1)
        + (val base p1 - (val base p0 + val base p2)) * base ^ m1 + val base p2"
proof -
  have b0: "0 < base" using b by simp
  from add_correct [OF b d0 d2] obtain s where
    s: "add p0 p2 base = Inr s" and ds: "digits_ok base s"
    and vs: "val base s = val base p0 + val base p2" by blast
  from subtract_correct [OF b d1 ds] le vs obtain z1 where
    z: "subtract p1 s base = Inr z1" and dz: "digits_ok base z1"
    and vz: "val base z1 = val base p1 - (val base p0 + val base p2)" by auto
  define z0prod z1prod where "z0prod = p0 @ replicate (2 * m1) 0" and "z1prod = z1 @ replicate m1 0"
  have dz0: "digits_ok base z0prod" and dz1: "digits_ok base z1prod"
    using d0 dz b0 by (simp_all add: z0prod_def z1prod_def)
  have vz0: "val base z0prod = val base p0 * base ^ (2 * m1)"
    and vz1: "val base z1prod = val base z1 * base ^ m1"
    by (simp_all add: z0prod_def z1prod_def)
  from add_correct [OF b dz0 dz1] obtain t where
    t: "add z0prod z1prod base = Inr t" and dt: "digits_ok base t"
    and vt: "val base t = val base z0prod + val base z1prod" by blast
  from add_correct [OF b dt d2] obtain res where
    res: "add t p2 base = Inr res" and dres: "digits_ok base res"
    and vres: "val base res = val base t + val base p2"
    and lres: "max (length t) (length p2) \<le> length res" by blast
  have "recombine p0 p1 p2 m1 base = Inr res"
    using s z t res by (simp add: recombine_def Let_def z0prod_def z1prod_def)
  moreover have "length p2 \<le> length res" using lres by simp
  ultimately show ?thesis using dres vres vt vz0 vz1 vz by simp
qed

lemma multiply_base_case:
  assumes b: "2 \<le> base" and l: "digits_ok base lhs" and r: "digits_ok base rhs"
    and n: "length lhs = 1" "length rhs = 1"
  shows "\<exists>res. multiply lhs rhs base = Some (Inr res) \<and> digits_ok base res \<and> res \<noteq> [] \<and>
     \<not> leading_zero res \<and> val base res = val base lhs * val base rhs"
proof -
  from n obtain x y where xy: "lhs = [x]" "rhs = [y]"
    by (cases lhs; cases rhs) auto
  from l r xy have x: "0 \<le> x" "x < base" and y: "0 \<le> y" "y < base" by simp_all
  define result where "result = x * y"
  have unf: "multiply lhs rhs base =
     (if result < base then Some (Inr [result])
      else Some (Inr [result div base, result mod base]))"
    using b by (subst multiply.simps) (simp add: xy pad_def result_def floor_div_def floor_mod_def Let_def)
  have r0: "0 \<le> result" using x y by (simp add: result_def)
  show ?thesis
  proof (cases "result < base")
    case True
    with unf r0 show ?thesis by (simp add: xy result_def leading_zero_def)
  next
    case False
    have "x * y \<le> x * base" using x y by (intro mult_left_mono) simp_all
    also have "\<dots> < base * base" using x b by simp
    finally have "result < base * base" by (simp add: result_def)
    then have rb: "result < base * base" .
    define q where "q = result div base"
    define m where "m = result mod base"
    have m: "0 \<le> m" "m < base" using b by (simp_all add: m_def)
    have v: "q * base + m = result" by (simp add: q_def m_def)
    have "q * base < base * base" using v m rb by linarith
    then have q1: "q < base" using b by (simp only: mult_less_cancel_right_pos)
    have "- 1 * base < q * base" using v m r0 by linarith
    then have "- 1 < q" using b by (simp only: mult_less_cancel_right_pos)
    then have q0: "0 \<le> q" by simp
    have q2: "q \<noteq> 0" using False v m by auto
    have "multiply lhs rhs base = Some (Inr [q, m])"
      using False unf by (simp add: q_def m_def)
    moreover have "val base [q, m] = val base lhs * val base rhs"
      using v by (simp add: xy val_Cons result_def)
    ultimately show ?thesis using q0 q1 q2 m
      by (simp add: leading_zero_def)
  qed
qed

lemma multiply_recursive_case:
  assumes "lhs \<noteq> []" "rhs \<noteq> []" and "max (length lhs) (length rhs) = n" and "n \<noteq> 1"
    and "multiply (take ((n + 1) div 2) (pad n lhs)) (take ((n + 1) div 2) (pad n rhs)) base = Some (Inr p0)"
    and "add (take ((n + 1) div 2) (pad n lhs)) (drop ((n + 1) div 2) (pad n lhs)) base = Inr sx"
    and "add (take ((n + 1) div 2) (pad n rhs)) (drop ((n + 1) div 2) (pad n rhs)) base = Inr sy"
    and "multiply sx sy base = Some (Inr p1)"
    and "multiply (drop ((n + 1) div 2) (pad n lhs)) (drop ((n + 1) div 2) (pad n rhs)) base = Some (Inr p2)"
  shows "multiply lhs rhs base = Some (recombine p0 p1 p2 (n div 2) base)"
  using assms by (subst multiply.simps) (simp add: Let_def)


lemma multiply_correct:
  "2 \<le> base \<Longrightarrow> digits_ok base lhs \<Longrightarrow> digits_ok base rhs \<Longrightarrow> lhs \<noteq> [] \<Longrightarrow> rhs \<noteq> [] \<Longrightarrow>
   \<exists>res. multiply lhs rhs base = Some (Inr res) \<and> digits_ok base res \<and> res \<noteq> [] \<and>
     val base res = val base lhs * val base rhs"
proof (induction "max (length lhs) (length rhs) + nat (val base lhs + val base rhs)"
    arbitrary: lhs rhs rule: less_induct)
  case less
  note b = \<open>2 \<le> base\<close> and dl = \<open>digits_ok base lhs\<close> and dr = \<open>digits_ok base rhs\<close>
    and nl = \<open>lhs \<noteq> []\<close> and nr = \<open>rhs \<noteq> []\<close>
  have b0: "0 < base" using b by simp
  define n where "n = max (length lhs) (length rhs)"
  have n1: "1 \<le> n" using nl by (cases lhs) (simp_all add: n_def)
  show ?case
  proof (cases "n = 1")
    case True
    then have "length lhs = 1" "length rhs = 1"
      using nl nr by (cases lhs; cases rhs; simp add: n_def)+
    from multiply_base_case [OF b dl dr this] show ?thesis by blast
  next
    case False
    with n1 have n2: "2 \<le> n" by simp
    define m0 m1 where "m0 = (n + 1) div 2" and "m1 = n div 2"
    have m: "m0 + m1 = n" "1 \<le> m1" "m1 \<le> m0" "m0 < n" "m0 + 1 \<le> n"
      using n2 by (simp_all add: m0_def m1_def)
    define L R where "L = pad n lhs" and "R = pad n rhs"
    have lenLR: "length L = n" "length R = n" by (simp_all add: L_def R_def n_def)
    have dL: "digits_ok base L" and dR: "digits_ok base R"
      using dl dr b0 by (simp_all add: L_def R_def)
    define x0 x1 y0 y1 where "x0 = take m0 L" and "x1 = drop m0 L"
      and "y0 = take m0 R" and "y1 = drop m0 R"
    have len: "length x0 = m0" "length x1 = m1" "length y0 = m0" "length y1 = m1"
      using m lenLR by (simp_all add: x0_def x1_def y0_def y1_def)
    have dx: "digits_ok base x0" "digits_ok base x1" "digits_ok base y0" "digits_ok base y1"
      using dL dR by (simp_all add: x0_def x1_def y0_def y1_def digits_ok_take digits_ok_drop)
    have ne: "x0 \<noteq> []" "x1 \<noteq> []" "y0 \<noteq> []" "y1 \<noteq> []"
      using len m by auto
    define X0 X1 Y0 Y1 where "X0 = val base x0" and "X1 = val base x1"
      and "Y0 = val base y0" and "Y1 = val base y1"
    define B where "B = base ^ m1"
    have B2: "2 \<le> B"
    proof -
      have "base ^ 1 \<le> base ^ m1" using b m by (intro power_increasing) simp_all
      with b show ?thesis by (simp add: B_def)
    qed
    have nn: "0 \<le> X0" "0 \<le> X1" "0 \<le> Y0" "0 \<le> Y1"
      using dx b0 by (simp_all add: X0_def X1_def Y0_def Y1_def val_nonneg)
    have vl: "val base lhs = X0 * B + X1"
      using val_take_drop [of base L m0] len
      by (simp add: X0_def X1_def B_def x0_def x1_def L_def)
    have vr: "val base rhs = Y0 * B + Y1"
      using val_take_drop [of base R m0] len
      by (simp add: Y0_def Y1_def B_def y0_def y1_def R_def)
    have gx: "X0 * 2 \<le> X0 * B" using nn B2 by (intro mult_left_mono) simp_all
    have gy: "Y0 * 2 \<le> Y0 * B" using nn B2 by (intro mult_left_mono) simp_all
    define M where "M = nat (val base lhs + val base rhs)"
    have Mv: "int M = X0 * B + X1 + (Y0 * B + Y1)"
      using nn gx gy by (simp add: M_def vl vr)
    \<comment> \<open>the product of the high parts\<close>
    have "nat (X0 + Y0) \<le> M" using Mv nn gx gy by linarith
    then have "max (length x0) (length y0) + nat (val base x0 + val base y0)
        < max (length lhs) (length rhs) + nat (val base lhs + val base rhs)"
      using m len unfolding n_def [symmetric] M_def [symmetric] X0_def [symmetric] Y0_def [symmetric]
      by simp
    from less.hyps [OF this b dx(1) dx(3) ne(1) ne(3)] obtain p0 where
      p0: "multiply x0 y0 base = Some (Inr p0)" and dp0: "digits_ok base p0"
      and vp0: "val base p0 = X0 * Y0"
      unfolding X0_def Y0_def by blast
    \<comment> \<open>the product of the low parts\<close>
    have "nat (X1 + Y1) \<le> M" using Mv nn gx gy by linarith
    then have "max (length x1) (length y1) + nat (val base x1 + val base y1)
        < max (length lhs) (length rhs) + nat (val base lhs + val base rhs)"
      using m len unfolding n_def [symmetric] M_def [symmetric] X1_def [symmetric] Y1_def [symmetric]
      by simp
    from less.hyps [OF this b dx(2) dx(4) ne(2) ne(4)] obtain p2 where
      p2: "multiply x1 y1 base = Some (Inr p2)" and dp2: "digits_ok base p2"
      and np2: "p2 \<noteq> []" and vp2: "val base p2 = X1 * Y1"
      unfolding X1_def Y1_def by blast
    \<comment> \<open>the pre-sums and their product\<close>
    from add_correct [OF b dx(1) dx(2)] obtain sx where
      sx: "add x0 x1 base = Inr sx" and dsx: "digits_ok base sx"
      and vsx: "val base sx = X0 + X1"
      and lsx: "m0 \<le> length sx" "length sx \<le> m0 + 1" "X0 + X1 < base ^ m0 \<longrightarrow> length sx = m0"
      using len m unfolding X0_def X1_def by (auto simp: max_def)
    from add_correct [OF b dx(3) dx(4)] obtain sy where
      sy: "add y0 y1 base = Inr sy" and dsy: "digits_ok base sy"
      and vsy: "val base sy = Y0 + Y1"
      and lsy: "m0 \<le> length sy" "length sy \<le> m0 + 1" "Y0 + Y1 < base ^ m0 \<longrightarrow> length sy = m0"
      using len m unfolding Y0_def Y1_def by (auto simp: max_def)
    have nes: "sx \<noteq> []" "sy \<noteq> []" using lsx lsy m by auto
    have Bm0: "B \<le> base ^ m0" unfolding B_def using b m by (intro power_increasing) simp_all
    have x1B: "X1 < B" using val_less [OF dx(2)] len by (simp add: X1_def B_def)
    have y1B: "Y1 < B" using val_less [OF dx(4)] len by (simp add: Y1_def B_def)
    have "max (length sx) (length sy) + nat (X0 + X1 + (Y0 + Y1)) < n + M"
    proof (cases "X0 = 0 \<and> Y0 = 0")
      case True
      then have "length sx = m0" "length sy = m0" using lsx lsy x1B y1B Bm0 by simp_all
      moreover have "nat (X0 + X1 + (Y0 + Y1)) = M" using True Mv by simp
      ultimately show ?thesis using m by simp
    next
      case False
      then have "1 \<le> X0 + Y0" using nn by linarith
      then have "nat (X0 + X1 + (Y0 + Y1)) < M" using Mv nn gx gy by linarith
      moreover have "max (length sx) (length sy) \<le> n" using lsx lsy m by simp
      ultimately show ?thesis by linarith
    qed
    then have "max (length sx) (length sy) + nat (val base sx + val base sy)
        < max (length lhs) (length rhs) + nat (val base lhs + val base rhs)"
      unfolding n_def M_def vsx vsy .
    from less.hyps [OF this b dsx dsy nes] obtain p1 where
      p1: "multiply sx sy base = Some (Inr p1)" and dp1: "digits_ok base p1"
      and vp1: "val base p1 = (X0 + X1) * (Y0 + Y1)"
      unfolding vsx vsy by blast
    \<comment> \<open>the recombination\<close>
    have cross: "0 \<le> X0 * Y1 + X1 * Y0" using nn by simp
    have "val base p0 + val base p2 \<le> val base p1"
      using cross unfolding vp0 vp1 vp2 by (simp add: algebra_simps)
    from recombine_correct [OF b dp0 dp1 dp2 this, of m1] obtain res where
      rc: "recombine p0 p1 p2 m1 base = Inr res" and dres: "digits_ok base res"
      and lres: "length p2 \<le> length res"
      and vres: "val base res = val base p0 * base ^ (2 * m1)
        + (val base p1 - (val base p0 + val base p2)) * base ^ m1 + val base p2"
      by blast
    have BB: "base ^ (2 * m1) = B * B" by (simp add: B_def mult_2 power_add)
    have "val base res = (X0 * B + X1) * (Y0 * B + Y1)"
      unfolding vres vp0 vp1 vp2 BB B_def [symmetric] by (simp add: algebra_simps)
    then have v: "val base res = val base lhs * val base rhs" by (simp add: vl vr)
    have "multiply lhs rhs base = Some (recombine p0 p1 p2 (n div 2) base)"
      using nl nr False p0 sx sy p1 p2
      unfolding x0_def x1_def y0_def y1_def L_def R_def m0_def
      by (intro multiply_recursive_case) (simp_all add: n_def)
    then have "multiply lhs rhs base = Some (Inr res)" using rc by (simp add: m1_def)
    moreover have "res \<noteq> []" using lres np2 by auto
    ultimately show ?thesis using dres v by blast
  qed
qed

section \<open>Claims about add and subtract\<close>

text \<open>
  C5 as stated: for digit vectors \<open>lhs\<close> and \<open>rhs\<close> with digits in \<open>[0, base)\<close>,
  \<open>add\<close> returns the sum with no extraneous leading zero unless the sum is zero.
  \<open>add\<close> has no trimming step: at \<open>add([0,1], [1], 10)\<close> it returns \<open>[0,2]\<close>, a
  non-zero sum with a leading zero.
\<close>

theorem add_unnormalised_counterexample:
  "digits_ok 10 [0, 1] \<and> digits_ok 10 [1] \<and> add [0, 1] [1] 10 = Inr [0, 2] \<and>
   val 10 [0, 2] \<noteq> 0 \<and> leading_zero [0, 2]"
  by code_simp

text \<open>
  C5, amended: for digit vectors \<open>lhs\<close> and \<open>rhs\<close> with digits in \<open>[0, base)\<close> and
  \<open>base \<ge> 2\<close>, \<open>add\<close> returns a most-significant-first vector that represents
  \<open>lhs + rhs\<close>, and it inserts no leading zero of its own: the result starts with a
  useless zero only if both operands, padded to their common length, do. In particular
  \<open>add([9,9,9], [1], 10) = [1,0,0,0]\<close>.
\<close>

theorem add_sum_keeps_padding:
  assumes "2 \<le> base" and "digits_ok base lhs" and "digits_ok base rhs"
  shows "(\<exists>res. add lhs rhs base = Inr res \<and>
           val base res = val base lhs + val base rhs \<and>
           (leading_zero res \<longrightarrow>
              leading_zero (pad (max (length lhs) (length rhs)) lhs) \<and>
              leading_zero (pad (max (length lhs) (length rhs)) rhs))) \<and>
         add [9, 9, 9] [1] 10 = Inr [1, 0, 0, 0]"
proof -
  from add_correct [OF assms] obtain res where
    run: "add lhs rhs base = Inr res" and v: "val base res = val base lhs + val base rhs"
    by blast
  have "leading_zero res \<longrightarrow>
      leading_zero (pad (max (length lhs) (length rhs)) lhs) \<and>
      leading_zero (pad (max (length lhs) (length rhs)) rhs)"
    using add_leading_zero [OF assms run] by blast
  moreover have "add [9, 9, 9] [1] 10 = Inr [1, 0, 0, 0]" by code_simp
  ultimately show ?thesis using run v by blast
qed

theorem add_sum_keeps_padding_witness:
  "2 \<le> (10::int) \<and> digits_ok 10 [0, 1] \<and> digits_ok 10 [2] \<and>
   (\<exists>res. add [0, 1] [2] 10 = Inr res \<and> val 10 res = 3 \<and> leading_zero res \<and>
      leading_zero (pad (max (length [0, 1 :: int]) (length [2 :: int])) [0, 1]) \<and>
      leading_zero (pad (max (length [0, 1 :: int]) (length [2 :: int])) [2]))"
proof -
  have h: "2 \<le> (10::int)" "digits_ok 10 [0, 1]" "digits_ok 10 [2]" by simp_all
  have e: "add [0, 1] [2] 10 = Inr [0, 3]" by code_simp
  have z: "leading_zero [0, 3]" by (simp add: leading_zero_def)
  have v: "val 10 [0, 1] + val 10 [2] = 3" by (simp add: val_def)
  from add_sum_keeps_padding [OF h] e z v h show ?thesis by auto
qed

text \<open>
  C2: \<open>subtract(lhs, rhs, base)\<close> with \<open>lhs < rhs\<close> is said to fail with InvalidOperand,
  in particular at \<open>subtract([1], [2], 10)\<close>. The borrow walk of the code stops at the
  top of the buffer without raising, and the call returns \<open>[9]\<close>.
\<close>

theorem subtract_underflow_returns:
  "digits_ok 10 [1] \<and> digits_ok 10 [2] \<and> val 10 [1] < val 10 [2] \<and>
   subtract [1] [2] 10 = Inr [9]"
  by code_simp

text \<open>
  C4 as stated: \<open>subtract([1,0,0,0], [1], 10)\<close> returns exactly \<open>[9,9,9]\<close>. It does not.
\<close>

theorem subtract_borrow_chain_counterexample:
  "subtract [1, 0, 0, 0] [1] 10 \<noteq> Inr [9, 9, 9]"
  by code_simp

text \<open>
  C4, amended: \<open>subtract([1,0,0,0], [1], 10)\<close> returns \<open>[0,9,9,9]\<close>, which represents
  999: the borrow chain across the whole vector is resolved, and the result keeps the
  padded length of the operands, leading zero included.
\<close>

theorem subtract_borrow_chain:
  "subtract [1, 0, 0, 0] [1] 10 = Inr [0, 9, 9, 9] \<and> val 10 [0, 9, 9, 9] = 999"
  by code_simp

text \<open>
  C6: for digit vectors \<open>x\<close> and \<open>y\<close> with digits in \<open>[0, base)\<close>, \<open>base \<ge> 2\<close> and
  \<open>x \<ge> y\<close> as integers, \<open>add(subtract(x, y, b), y, b)\<close> represents the same integer
  as \<open>x\<close>.
\<close>

theorem add_subtract_inverse:
  assumes "2 \<le> base" and "digits_ok base x" and "digits_ok base y"
    and "val base y \<le> val base x"
  shows "\<exists>d res. subtract x y base = Inr d \<and> add d y base = Inr res \<and> val base res = val base x"
proof -
  from subtract_correct [OF assms] obtain d where
    s: "subtract x y base = Inr d" and dd: "digits_ok base d"
    and vd: "val base d = val base x - val base y" by blast
  from add_correct [OF assms(1) dd assms(3)] obtain res where
    "add d y base = Inr res" "val base res = val base d + val base y" by blast
  with s vd show ?thesis by simp
qed

theorem add_subtract_inverse_witness:
  "2 \<le> (10::int) \<and> digits_ok 10 [1, 0, 0, 0] \<and> digits_ok 10 [1] \<and>
   val 10 [1] \<le> val 10 [1, 0, 0, 0] \<and>
   (\<exists>d res. subtract [1, 0, 0, 0] [1] 10 = Inr d \<and> add d [1] 10 = Inr res \<and> val 10 res = 1000)"
proof -
  have h: "2 \<le> (10::int)" "digits_ok 10 [1, 0, 0, 0]" "digits_ok 10 [1]"
    "val 10 [1] \<le> val 10 [1, 0, 0, 0]" by (simp_all add: val_def)
  have "val 10 [1, 0, 0, 0] = 1000" by (simp add: val_def)
  with add_subtract_inverse [OF h] h show ?thesis by simp
qed

section \<open>Claims about multiply\<close>

text \<open>
  C8: \<open>multiply\<close> fails, rather than returning a digit vector, whenever either input
  has length 0, whatever the other input and the base. The failure is that of the
  opening \<^verbatim>\<open>assert\<close>, the code's form of the InvalidArgument error.
\<close>

theorem multiply_empty_operand:
  "length lhs = 0 \<or> length rhs = 0 \<Longrightarrow> multiply lhs rhs base = Some (Inl AssertionError)"
  by (subst multiply.simps) auto

theorem multiply_empty_operand_witness:
  "(length ([]::int list) = 0 \<or> length [3::int] = 0) \<and> multiply [] [3] 10 = Some (Inl AssertionError)"
  using multiply_empty_operand [of "[]" "[3]" 10] by simp

text \<open>
  C1: for non-empty digit vectors \<open>x\<close> and \<open>y\<close> with digits in \<open>[0, base)\<close> and every
  base \<open>b \<ge> 2\<close>, \<open>multiply(x, y, b)\<close> returns a digit vector, and the integer it
  represents is the product of the integers represented by \<open>x\<close> and \<open>y\<close>.
\<close>

theorem multiply_product:
  assumes "2 \<le> base" and "digits_ok base x" and "digits_ok base y" and "x \<noteq> []" and "y \<noteq> []"
  shows "\<exists>res. multiply x y base = Some (Inr res) \<and> val base res = val base x * val base y"
  using multiply_correct [OF assms] by blast

theorem multiply_product_witness:
  "2 \<le> (10::int) \<and> digits_ok 10 [1, 3, 3, 7] \<and> digits_ok 10 [1, 0, 0, 0] \<and>
   [1, 3, 3, 7] \<noteq> ([]::int list) \<and> [1, 0, 0, 0] \<noteq> ([]::int list) \<and>
   (\<exists>res. multiply [1, 3, 3, 7] [1, 0, 0, 0] 10 = Some (Inr res) \<and> val 10 res = 1337000)"
proof -
  have h: "2 \<le> (10::int)" "digits_ok 10 [1, 3, 3, 7]" "digits_ok 10 [1, 0, 0, 0]"
    "[1, 3, 3, 7] \<noteq> ([]::int list)" "[1, 0, 0, 0] \<noteq> ([]::int list)" by simp_all
  have "val 10 [1, 3, 3, 7] * val 10 [1, 0, 0, 0] = 1337000" by (simp add: val_def)
  with multiply_product [OF h] h show ?thesis by simp
qed

text \<open>
  C3 as stated: the digit vector returned by \<open>multiply\<close> is of minimal length, with no
  leading zero digit unless it is the single digit zero. The recombination is returned as
  \<open>add\<close> leaves it: \<open>multiply([1,9], [1,9], 10)\<close> is \<open>[0,3,6,1]\<close>.
\<close>

theorem multiply_unnormalised_counterexample:
  "digits_ok 10 [1, 9] \<and> [1, 9] \<noteq> ([]::int list) \<and>
   multiply [1, 9] [1, 9] 10 = Some (Inr [0, 3, 6, 1]) \<and> leading_zero [0, 3, 6, 1]"
  by code_simp

text \<open>
  C3, amended: for non-empty digit vectors with digits in \<open>[0, base)\<close> and \<open>base \<ge> 2\<close>,
  \<open>multiply\<close> returns a non-empty digit vector that represents the product; it is of
  minimal length (no leading zero unless it is the single digit zero) when both operands
  are single digits, the base case. In the recursive case the sum of the three shifted
  terms is returned without normalisation.
\<close>

theorem multiply_minimal_base_case:
  assumes "2 \<le> base" and "digits_ok base lhs" and "digits_ok base rhs"
    and "lhs \<noteq> []" and "rhs \<noteq> []"
  shows "\<exists>res. multiply lhs rhs base = Some (Inr res) \<and> res \<noteq> [] \<and>
     val base res = val base lhs * val base rhs \<and>
     (length lhs = 1 \<and> length rhs = 1 \<longrightarrow> \<not> leading_zero res)"
proof (cases "length lhs = 1 \<and> length rhs = 1")
  case True
  with multiply_base_case [OF assms(1-3)] show ?thesis by blast
next
  case False
  with multiply_correct [OF assms] show ?thesis by blast
qed

theorem multiply_minimal_base_case_witness:
  "2 \<le> (10::int) \<and> digits_ok 10 [7] \<and> digits_ok 10 [8] \<and>
   [7] \<noteq> ([]::int list) \<and> [8] \<noteq> ([]::int list) \<and> length [7::int] = 1 \<and> length [8::int] = 1 \<and>
   (\<exists>res. multiply [7] [8] 10 = Some (Inr res) \<and> res \<noteq> [] \<and> val 10 res = 56 \<and>
      \<not> leading_zero res)"
proof -
  have h: "2 \<le> (10::int)" "digits_ok 10 [7]" "digits_ok 10 [8]"
    "[7] \<noteq> ([]::int list)" "[8] \<noteq> ([]::int list)" by simp_all
  from multiply_minimal_base_case [OF h] h show ?thesis by simp
qed

text \<open>
  C7: for every non-empty digit vector \<open>x\<close> with digits in \<open>[0, base)\<close> and \<open>base \<ge> 2\<close>,
  \<open>multiply(x, [1], b)\<close> represents the same integer as \<open>x\<close>.
\<close>

theorem multiply_one:
  assumes "2 \<le> base" and "digits_ok base x" and "x \<noteq> []"
  shows "\<exists>res. multiply x [1] base = Some (Inr res) \<and> val base res = val base x"
proof -
  have "digits_ok base [1]" "[1] \<noteq> ([]::int list)" using assms(1) by simp_all
  from multiply_correct [OF assms(1,2) this(1) assms(3) this(2)] show ?thesis by auto
qed

theorem multiply_one_witness:
  "2 \<le> (10::int) \<and> digits_ok 10 [0, 4, 2] \<and> [0, 4, 2] \<noteq> ([]::int list) \<and>
   (\<exists>res. multiply [0, 4, 2] [1] 10 = Some (Inr res) \<and> val 10 res = 42)"
proof -
  have h: "2 \<le> (10::int)" "digits_ok 10 [0, 4, 2]" "[0, 4, 2] \<noteq> ([]::int list)" by simp_all
  have "val 10 [0, 4, 2] = 42" by (simp add: val_def)
  with multiply_one [OF h] h show ?thesis by simp
qed

text \<open>
  C9: for operands whose digits all lie in \<open>[0, base)\<close> with \<open>base \<ge> 2\<close> (for
  \<open>subtract\<close>, \<open>lhs \<ge> rhs\<close>; for \<open>multiply\<close>, both non-empty), every digit of the
  vector returned by \<open>add\<close>, \<open>subtract\<close> and \<open>multiply\<close> lies in \<open>[0, base)\<close>.
\<close>

theorem digit_range_preserved:
  assumes "2 \<le> base" and "digits_ok base lhs" and "digits_ok base rhs"
  shows "(\<exists>res. add lhs rhs base = Inr res \<and> digits_ok base res) \<and>
         (val base rhs \<le> val base lhs \<longrightarrow>
            (\<exists>res. subtract lhs rhs base = Inr res \<and> digits_ok base res)) \<and>
         (lhs \<noteq> [] \<and> rhs \<noteq> [] \<longrightarrow>
            (\<exists>res. multiply lhs rhs base = Some (Inr res) \<and> digits_ok base res))"
proof (intro conjI impI)
  show "\<exists>res. add lhs rhs base = Inr res \<and> digits_ok base res"
    using add_correct [OF assms] by blast
next
  assume "val base rhs \<le> val base lhs"
  from subtract_correct [OF assms this]
  show "\<exists>res. subtract lhs rhs base = Inr res \<and> digits_ok base res" by blast
next
  assume "lhs \<noteq> [] \<and> rhs \<noteq> []"
  then have "lhs \<noteq> []" "rhs \<noteq> []" by simp_all
  from multiply_correct [OF assms this]
  show "\<exists>res. multiply lhs rhs base = Some (Inr res) \<and> digits_ok base res" by blast
qed

theorem digit_range_preserved_witness:
  "2 \<le> (10::int) \<and> digits_ok 10 [9, 0, 7] \<and> digits_ok 10 [9, 5] \<and>
   val 10 [9, 5] \<le> val 10 [9, 0, 7] \<and> [9, 0, 7] \<noteq> ([]::int list) \<and> [9, 5] \<noteq> ([]::int list) \<and>
   (\<exists>res. add [9, 0, 7] [9, 5] 10 = Inr res \<and> digits_ok 10 res) \<and>
   (\<exists>res. subtract [9, 0, 7] [9, 5] 10 = Inr res \<and> digits_ok 10 res) \<and>
   (\<exists>res. multiply [9, 0, 7] [9, 5] 10 = Some (Inr res) \<and> digits_ok 10 res)"
proof -
  have h: "2 \<le> (10::int)" "digits_ok 10 [9, 0, 7]" "digits_ok 10 [9, 5]" by simp_all
  have v: "val 10 [9, 5] \<le> val 10 [9, 0, 7]" by (simp add: val_def)
  from digit_range_preserved [OF h] h v show ?thesis by simp
qed

text \<open>
  C10: \<open>multiply\<close> terminates (returns) on every pair of non-empty digit vectors with
  digits in \<open>[0, base)\<close> and \<open>base \<ge> 2\<close>, although the operands of the recursive call
  for \<open>p1\<close> can be as long as those of the current call: the pre-sum of the halves of
  \<open>[9,9]\<close> is \<open>[1,8]\<close> and that of the halves of \<open>[9,9,9]\<close> is \<open>[1,0,8]\<close>.
\<close>

theorem multiply_terminates:
  assumes "2 \<le> base" and "digits_ok base lhs" and "digits_ok base rhs"
    and "lhs \<noteq> []" and "rhs \<noteq> []"
  shows "multiply lhs rhs base \<noteq> None \<and>
         add (take 1 [9, 9]) (drop 1 [9, 9]) 10 = Inr [1, 8] \<and>
         add (take 2 [9, 9, 9]) (drop 2 [9, 9, 9]) 10 = Inr [1, 0, 8]"
proof -
  from multiply_correct [OF assms] have "multiply lhs rhs base \<noteq> None" by auto
  moreover have "add (take 1 [9, 9]) (drop 1 [9, 9]) 10 = Inr [1, 8]" by code_simp
  moreover have "add (take 2 [9, 9, 9]) (drop 2 [9, 9, 9]) 10 = Inr [1, 0, 8]" by code_simp
  ultimately show ?thesis by blast
qed

theorem multiply_terminates_witness:
  "2 \<le> (10::int) \<and> digits_ok 10 [9, 9, 9] \<and> digits_ok 10 [9, 9] \<and>
   [9, 9, 9] \<noteq> ([]::int list) \<and> [9, 9] \<noteq> ([]::int list) \<and> multiply [9, 9, 9] [9, 9] 10 \<noteq> None"
proof -
  have h: "2 \<le> (10::int)" "digits_ok 10 [9, 9, 9]" "digits_ok 10 [9, 9]"
    "[9, 9, 9] \<noteq> ([]::int list)" "[9, 9] \<noteq> ([]::int list)" by simp_all
  from multiply_terminates [OF h] h show ?thesis by simp
qed

end
